theory Spec2Isabelle
  imports Main "HOL-Library.Word"
begin

section \<open>Data model of the worker engine\<close>

text \<open>
  The exceptions the worker code throws. \<open>WorkerInterruptedException\<close> is the
  cooperative cancellation signal, \<open>WorkerException\<close> the worker-level failure; each
  carries the text given to its constructor.
\<close>

datatype exn =
  WorkerInterruptedException string
  | WorkerException string

text \<open>
  \<open>buuids::uuid\<close> is a 128-bit identifier, \<open>size_t\<close> a 64-bit unsigned integer whose
  \<open>++\<close> wraps around, and \<open>int\<close> a 32-bit signed integer.
\<close>

type_synonym uuid = "128 word"
type_synonym size_t = "64 word"
type_synonym cint = "32 word"

text \<open>
  The fields of \<open>Worker\<close> that the functions of \<open>Worker.cpp\<close> read or write.
  \<open>stoneWallCaptures\<close> counts how often \<open>createStoneWallStats\<close> has run on the worker;
  it is the observable the stonewall properties are stated on.
\<close>

record worker =
  workerRank :: size_t
  isInterruptionRequested :: bool
  stoneWallTriggered :: bool
  stoneWallCaptures :: nat

text \<open>
  The fields of \<open>WorkersSharedData\<close> used by \<open>Worker.cpp\<close>. The mutex is not a field
  of the model: a function that holds it for its whole body is one atomic step on
  the state below.
\<close>

record workersSharedData =
  currentBenchID :: uuid
  numWorkersDone :: size_t
  numWorkersDoneWithError :: size_t

text \<open>
  The shared data and the workers it points to through \<open>workerVec\<close>. A worker is
  addressed by its position in the vector, so the calling worker is one of the
  entries the stonewall loop walks over.
\<close>

record pool =
  shared :: workersSharedData
  workerVec :: "worker list"


section \<open>Cooperative interruption\<close>

text \<open>
  \<open>Worker::checkInterruptionRequest\<close>: throws when the flag is set. The function only
  reads the flag, so the model returns no state.
\<close>

definition checkInterruptionRequest :: "worker \<Rightarrow> exn + unit" where
  "checkInterruptionRequest w =
     (if isInterruptionRequested w
      then Inl (WorkerInterruptedException ''Received friendly request to interrupt execution.'')
      else Inr ())"


section \<open>Waiting for the next phase\<close>

text \<open>
  What a worker sees at one moment: its own fields and the shared data. The
  interruption flag and the phase identifier are written by other threads, so
  \<open>waitForNextPhase\<close> is run against the view at entry and the views at each
  return of \<open>condition.wait\<close>, in order.
\<close>

type_synonym view = "worker \<times> workersSharedData"

text \<open>
  The \<open>while\<close> loop of \<open>Worker::waitForNextPhase\<close>, entered with the current view
  \<open>v\<close>. While the identifier seen equals \<open>oldBenchID\<close> the worker waits; the next
  wakeup brings the next view, on which the interruption check runs before the loop
  condition is read again. When no wakeup is left, the worker stays blocked in
  \<open>condition.wait\<close>: the call does not return, which is the value \<open>None\<close>.
\<close>

fun waitLoop :: "uuid \<Rightarrow> view \<Rightarrow> view list \<Rightarrow> (exn + unit) option" where
  "waitLoop oldBenchID v [] =
     (if oldBenchID = currentBenchID (snd v) then None else Some (Inr ()))"
| "waitLoop oldBenchID v (v' # wakeups) =
     (if oldBenchID = currentBenchID (snd v)
      then (case checkInterruptionRequest (fst v') of
              Inl e \<Rightarrow> Some (Inl e)
            | Inr _ \<Rightarrow> waitLoop oldBenchID v' wakeups)
      else Some (Inr ()))"

text \<open>
  \<open>Worker::waitForNextPhase\<close>: the interruption check at entry, then the loop.
\<close>

definition waitForNextPhase :: "uuid \<Rightarrow> view \<Rightarrow> view list \<Rightarrow> (exn + unit) option" where
  "waitForNextPhase oldBenchID v wakeups =
     (case checkInterruptionRequest (fst v) of
        Inl e \<Rightarrow> Some (Inl e)
      | Inr _ \<Rightarrow> waitLoop oldBenchID v wakeups)"


text \<open>
  Two abbreviations used to state the outcomes of the wait: a view on which the
  worker goes back to waiting (not interrupted, identifier unchanged), and the
  outcome of an interrupted call.
\<close>

definition quiet :: "uuid \<Rightarrow> view \<Rightarrow> bool" where
  "quiet oldBenchID u =
     (\<not> isInterruptionRequested (fst u) \<and> currentBenchID (snd u) = oldBenchID)"

definition interrupted :: "(exn + unit) option" where
  "interrupted =
     Some (Inl (WorkerInterruptedException ''Received friendly request to interrupt execution.''))"


section \<open>Completion counters and stonewall capture\<close>

text \<open>
  Modelled from the spec: \<open>WorkersSharedData::incNumWorkersDoneUnlocked\<close> is declared in
  \<open>WorkersSharedData.h\<close>, which is not among the sources. The spec has the caller,
  under the shared lock, increment the completion counter through it.
\<close>

definition incNumWorkersDoneUnlocked :: "workersSharedData \<Rightarrow> workersSharedData" where
  "incNumWorkersDoneUnlocked sd = sd\<lparr>numWorkersDone := numWorkersDone sd + 1\<rparr>"

text \<open>
  Modelled from the spec: \<open>Worker::createStoneWallStats\<close> is declared in \<open>Worker.h\<close>, which
  is not among the sources. It takes the stonewall snapshot of one worker; the
  snapshot is latched per phase, so the call sets the worker's \<open>stoneWallTriggered\<close>.
  The model counts the call.
\<close>

definition createStoneWallStats :: "worker \<Rightarrow> worker" where
  "createStoneWallStats w =
     w\<lparr>stoneWallTriggered := True, stoneWallCaptures := Suc (stoneWallCaptures w)\<rparr>"

text \<open>
  \<open>Worker::incNumWorkersDone\<close>, called by the worker at position \<open>me\<close> of the vector.
  The lock is held from the first statement to the last, so the body is one step.
  The counter is incremented first; the test reads the incremented counter and the
  caller's own latch; the loop runs over the whole vector.
\<close>

definition incNumWorkersDone :: "nat \<Rightarrow> pool \<Rightarrow> pool" where
  "incNumWorkersDone me p =
     (let sd = incNumWorkersDoneUnlocked (shared p) in
      if numWorkersDone sd = 1 \<and> \<not> stoneWallTriggered (workerVec p ! me)
      then p\<lparr>shared := sd, workerVec := map createStoneWallStats (workerVec p)\<rparr>
      else p\<lparr>shared := sd\<rparr>)"

text \<open>
  Modelled from the spec: \<open>WorkersSharedData::incNumWorkersDoneWithError\<close> is defined
  outside the sources. The spec has it lock internally and record an error
  completion in \<open>numWorkersDoneWithError\<close>, a counter separate from \<open>numWorkersDone\<close>.
\<close>

definition WorkersSharedData_incNumWorkersDoneWithError ::
  "workersSharedData \<Rightarrow> workersSharedData" where
  "WorkersSharedData_incNumWorkersDoneWithError sd =
     sd\<lparr>numWorkersDoneWithError := numWorkersDoneWithError sd + 1\<rparr>"

text \<open>
  \<open>Worker::incNumWorkersDoneWithError\<close>, called by the worker at position \<open>me\<close>: a debug
  log line (which names the caller's rank and is no part of the state), then the
  call on the shared data.
\<close>

definition incNumWorkersDoneWithError :: "nat \<Rightarrow> pool \<Rightarrow> pool" where
  "incNumWorkersDoneWithError me p =
     p\<lparr>shared := WorkersSharedData_incNumWorkersDoneWithError (shared p)\<rparr>"

text \<open>
  Modelled from the spec: \<open>WorkerManager::checkWorkersDone\<close> is only declared in
  \<open>WorkerManager.h\<close>; its body is not among the sources. The spec has it report
  whether \<open>numWorkersDone == numWorkers\<close> and hand out the count reached so far.
  \<open>numWorkers\<close> is the size of the worker vector, a \<open>size_t\<close>.
\<close>

definition checkWorkersDone :: "pool \<Rightarrow> bool \<times> size_t" where
  "checkWorkersDone p =
     (numWorkersDone (shared p) = word_of_nat (length (workerVec p)),
      numWorkersDone (shared p))"

text \<open>
  The completion calls the workers make during one phase, in the order in which
  they take the lock: each names the function called and the position of the caller.
\<close>

datatype completion = CallDone nat | CallDoneWithError nat

fun complete :: "completion \<Rightarrow> pool \<Rightarrow> pool" where
  "complete (CallDone me) p = incNumWorkersDone me p"
| "complete (CallDoneWithError me) p = incNumWorkersDoneWithError me p"

definition completions :: "completion list \<Rightarrow> pool \<Rightarrow> pool" where
  "completions evs p = fold complete evs p"

fun caller :: "completion \<Rightarrow> nat" where
  "caller (CallDone me) = me"
| "caller (CallDoneWithError me) = me"

text \<open>The caller of the first \<open>incNumWorkersDone\<close> of a phase, if there is one.\<close>

fun firstDone :: "completion list \<Rightarrow> nat option" where
  "firstDone [] = None"
| "firstDone (CallDone me # evs) = Some me"
| "firstDone (CallDoneWithError me # evs) = firstDone evs"

text \<open>
  The notions the claims about the counters use: how often the worker at a position
  has called either function, whether every worker has called exactly once, which
  workers have not finished yet, and on which workers a step took a snapshot.
\<close>

definition callsBy :: "nat \<Rightarrow> completion list \<Rightarrow> nat" where
  "callsBy i evs = length (filter (\<lambda>e. caller e = i) evs)"

definition everyWorkerCalledOnce :: "completion list \<Rightarrow> pool \<Rightarrow> bool" where
  "everyWorkerCalledOnce evs p =
     list_all (\<lambda>i. callsBy i evs = 1) [0..<length (workerVec p)]"


definition capturedWorkers :: "pool \<Rightarrow> pool \<Rightarrow> nat list" where
  "capturedWorkers p p' =
     filter (\<lambda>i. stoneWallCaptures (workerVec p' ! i) \<noteq> stoneWallCaptures (workerVec p ! i))
       [0..<length (workerVec p)]"


section \<open>NUMA binding\<close>

text \<open>
  \<open>std::to_string\<close> on an \<open>int\<close>: the decimal digits, with a minus sign for a negative
  value.
\<close>

definition digit_char :: "nat \<Rightarrow> char" where
  "digit_char d = ''0123456789'' ! d"

function show_nat :: "nat \<Rightarrow> string" where
  "show_nat n =
     (if n < 10 then [digit_char n] else show_nat (n div 10) @ [digit_char (n mod 10)])"
  by pat_completeness auto
termination
  by (relation "measure id") auto

declare show_nat.simps [simp del]

definition to_string :: "int \<Rightarrow> string" where
  "to_string i = (if i < 0 then CHR ''-'' # show_nat (nat (- i)) else show_nat (nat i))"

text \<open>
  \<open>Worker::applyNumaBinding\<close>. The configured zone list (\<open>progArgs->getNumaZonesVec()\<close>),
  the answer of \<open>NumaTk::isNumaInfoAvailable()\<close> and \<open>NumaTk::bindToNumaZone\<close> belong to
  code outside the sources and are parameters: \<open>bindToNumaZone zone\<close> is \<open>None\<close> when
  the binding succeeds and \<open>Some what\<close> when it throws a \<open>ProgException\<close> whose
  \<open>what()\<close> is \<open>what\<close>. The index is computed in \<open>size_t\<close> from the rank of the
  calling worker \<open>w\<close>. The result is the exception thrown, or the zone bound (\<open>None\<close>
  when the function returned without binding).
\<close>

definition applyNumaBinding ::
  "bool \<Rightarrow> (string \<Rightarrow> string option) \<Rightarrow> cint list \<Rightarrow> worker \<Rightarrow> exn + string option" where
  "applyNumaBinding isNumaInfoAvailable bindToNumaZone numaZonesVec w =
     (if numaZonesVec = [] \<or> \<not> isNumaInfoAvailable then Inr None
      else
        let zoneNum =
          numaZonesVec ! unat (workerRank w mod word_of_nat (length numaZonesVec)) in
        case bindToNumaZone (to_string (sint zoneNum)) of
          Some what \<Rightarrow> Inl (WorkerException what)
        | None \<Rightarrow> Inr (Some (to_string (sint zoneNum))))"


section \<open>The block device test script\<close>


















section \<open>Example states\<close>

text \<open>
  States on which the theorems below are exercised: a worker that is neither
  interrupted nor captured, the same with a given rank, shared data at the start of
  the phase with a given identifier, and a pool of \<open>n\<close> such workers, ranked by
  position, at the start of phase 1.
\<close>

definition idleWorker :: worker where
  "idleWorker =
     \<lparr>workerRank = 0, isInterruptionRequested = False, stoneWallTriggered = False,
      stoneWallCaptures = 0\<rparr>"

definition workerOfRank :: "size_t \<Rightarrow> worker" where
  "workerOfRank r = idleWorker\<lparr>workerRank := r\<rparr>"

definition sharedAt :: "uuid \<Rightarrow> workersSharedData" where
  "sharedAt b = \<lparr>currentBenchID = b, numWorkersDone = 0, numWorkersDoneWithError = 0\<rparr>"

definition freshPool :: "nat \<Rightarrow> pool" where
  "freshPool n =
     \<lparr>shared = sharedAt 1,
      workerVec = map (\<lambda>i. workerOfRank (word_of_nat i)) [0..<n]\<rparr>"



section \<open>Properties of interruption and phase waiting\<close>

lemma waitLoop_dropWhile:
  "\<not> isInterruptionRequested (fst v) \<Longrightarrow>
   waitLoop old v ws =
     (case dropWhile (quiet old) (v # ws) of
        [] \<Rightarrow> None
      | u # _ \<Rightarrow> if isInterruptionRequested (fst u) then interrupted else Some (Inr ()))"
proof (induction ws arbitrary: v)
  case Nil
  then show ?case by (simp add: quiet_def)
next
  case (Cons v' ws)
  show ?case
  proof (cases "old = currentBenchID (snd v)")
    case changed: False
    with Cons.prems show ?thesis by (simp add: quiet_def)
  next
    case same: True
    with Cons.prems have q: "quiet old v" by (simp add: quiet_def)
    show ?thesis
    proof (cases "isInterruptionRequested (fst v')")
      case True
      then have "\<not> quiet old v'" by (simp add: quiet_def)
      with q True same show ?thesis
        by (simp add: checkInterruptionRequest_def interrupted_def)
    next
      case False
      have "waitLoop old v (v' # ws) = waitLoop old v' ws"
        using same False by (simp add: checkInterruptionRequest_def)
      also have "\<dots> = (case dropWhile (quiet old) (v' # ws) of
          [] \<Rightarrow> None
        | u # _ \<Rightarrow> if isInterruptionRequested (fst u) then interrupted else Some (Inr ()))"
        by (rule Cons.IH [OF False])
      also have "dropWhile (quiet old) (v' # ws) = dropWhile (quiet old) (v # v' # ws)"
        using q by simp
      finally show ?thesis .
    qed
  qed
qed

lemma waitForNextPhase_dropWhile:
  "waitForNextPhase old v ws =
     (case dropWhile (quiet old) (v # ws) of
        [] \<Rightarrow> None
      | u # _ \<Rightarrow> if isInterruptionRequested (fst u) then interrupted else Some (Inr ()))"
proof (cases "isInterruptionRequested (fst v)")
  case True
  then show ?thesis
    by (simp add: waitForNextPhase_def checkInterruptionRequest_def quiet_def interrupted_def)
next
  case False
  then show ?thesis
    using waitLoop_dropWhile [OF False, of old ws]
    by (simp add: waitForNextPhase_def checkInterruptionRequest_def)
qed

lemma dropWhile_split:
  "dropWhile P xs = u # r \<longleftrightarrow> (\<exists>b. xs = b @ u # r \<and> (\<forall>x\<in>set b. P x) \<and> \<not> P u)"
proof
  assume "dropWhile P xs = u # r"
  then have "xs = takeWhile P xs @ u # r \<and> \<not> P u"
    by (simp add: dropWhile_eq_Cons_conv)
  moreover have "\<forall>x\<in>set (takeWhile P xs). P x"
    by (auto dest: set_takeWhileD)
  ultimately show "\<exists>b. xs = b @ u # r \<and> (\<forall>x\<in>set b. P x) \<and> \<not> P u" by blast
next
  assume "\<exists>b. xs = b @ u # r \<and> (\<forall>x\<in>set b. P x) \<and> \<not> P u"
  then obtain b where "xs = b @ u # r" "\<forall>x\<in>set b. P x" "\<not> P u" by blast
  then show "dropWhile P xs = u # r" by simp
qed

lemma waitForNextPhase_None:
  "waitForNextPhase old v ws = None \<longleftrightarrow> (\<forall>x\<in>set (v # ws). quiet old x)"
proof -
  have "waitForNextPhase old v ws = None \<longleftrightarrow> dropWhile (quiet old) (v # ws) = []"
    unfolding waitForNextPhase_dropWhile
    by (cases "dropWhile (quiet old) (v # ws)") (simp_all add: interrupted_def)
  then show ?thesis by (simp only: dropWhile_eq_Nil_conv)
qed

lemma waitForNextPhase_Returned:
  "waitForNextPhase old v ws = Some (Inr ()) \<longleftrightarrow>
     (\<exists>u r. dropWhile (quiet old) (v # ws) = u # r \<and> \<not> isInterruptionRequested (fst u))"
  unfolding waitForNextPhase_dropWhile
  by (cases "dropWhile (quiet old) (v # ws)") (simp_all add: interrupted_def)

lemma waitForNextPhase_Interrupted:
  "waitForNextPhase old v ws = interrupted \<longleftrightarrow>
     (\<exists>u r. dropWhile (quiet old) (v # ws) = u # r \<and> isInterruptionRequested (fst u))"
  unfolding waitForNextPhase_dropWhile
  by (cases "dropWhile (quiet old) (v # ws)") (simp_all add: interrupted_def)

text \<open>
  Claim C5. \<open>checkInterruptionRequest\<close> throws the interruption exception exactly when
  the worker's interruption flag is set at the call, and returns normally exactly
  when the flag is clear. It reads the flag and writes nothing: the call yields an
  outcome and no state.
\<close>

theorem checkInterruptionRequest_iff:
  "(checkInterruptionRequest w =
      Inl (WorkerInterruptedException ''Received friendly request to interrupt execution.'')
      \<longleftrightarrow> isInterruptionRequested w)
   \<and> ((\<exists>e. checkInterruptionRequest w = Inl e) \<longleftrightarrow> isInterruptionRequested w)
   \<and> (checkInterruptionRequest w = Inr () \<longleftrightarrow> \<not> isInterruptionRequested w)"
  by (simp add: checkInterruptionRequest_def)

theorem checkInterruptionRequest_iff_witness:
  "checkInterruptionRequest (idleWorker\<lparr>isInterruptionRequested := True\<rparr>) =
      Inl (WorkerInterruptedException ''Received friendly request to interrupt execution.'')
   \<and> checkInterruptionRequest idleWorker = Inr ()"
  using checkInterruptionRequest_iff [of "idleWorker\<lparr>isInterruptionRequested := True\<rparr>"]
    checkInterruptionRequest_iff [of idleWorker]
  by (simp add: idleWorker_def)

text \<open>
  Claim C2. The three outcomes of \<open>waitForNextPhase\<close>, over the view at entry followed
  by the views at the wakeups. The call returns normally exactly when, after views on
  which the worker was not interrupted and still saw \<open>oldBenchID\<close>, a view comes on
  which it is not interrupted and the identifier differs. It throws the interruption
  exception exactly when, after such views, a view comes on which the flag is set,
  be it the view at entry or the one at a wakeup. It stays blocked exactly when every
  view shows the flag clear and the old identifier, so a spurious wakeup sends the
  worker back to waiting.
\<close>

theorem waitForNextPhase_outcome:
  "(waitForNextPhase old v ws = Some (Inr ()) \<longleftrightarrow>
      (\<exists>before u after. v # ws = before @ u # after
         \<and> (\<forall>x\<in>set before. \<not> isInterruptionRequested (fst x) \<and> currentBenchID (snd x) = old)
         \<and> \<not> isInterruptionRequested (fst u) \<and> currentBenchID (snd u) \<noteq> old))
   \<and> (waitForNextPhase old v ws = interrupted \<longleftrightarrow>
      (\<exists>before u after. v # ws = before @ u # after
         \<and> (\<forall>x\<in>set before. \<not> isInterruptionRequested (fst x) \<and> currentBenchID (snd x) = old)
         \<and> isInterruptionRequested (fst u)))
   \<and> (waitForNextPhase old v ws = None \<longleftrightarrow>
      (\<forall>x\<in>set (v # ws). \<not> isInterruptionRequested (fst x) \<and> currentBenchID (snd x) = old))"
proof (intro conjI)
  show "waitForNextPhase old v ws = Some (Inr ()) \<longleftrightarrow>
      (\<exists>before u after. v # ws = before @ u # after
         \<and> (\<forall>x\<in>set before. \<not> isInterruptionRequested (fst x) \<and> currentBenchID (snd x) = old)
         \<and> \<not> isInterruptionRequested (fst u) \<and> currentBenchID (snd u) \<noteq> old)"
    unfolding waitForNextPhase_Returned dropWhile_split quiet_def by blast
  show "waitForNextPhase old v ws = interrupted \<longleftrightarrow>
      (\<exists>before u after. v # ws = before @ u # after
         \<and> (\<forall>x\<in>set before. \<not> isInterruptionRequested (fst x) \<and> currentBenchID (snd x) = old)
         \<and> isInterruptionRequested (fst u))"
    unfolding waitForNextPhase_Interrupted dropWhile_split quiet_def by blast
  show "waitForNextPhase old v ws = None \<longleftrightarrow>
      (\<forall>x\<in>set (v # ws). \<not> isInterruptionRequested (fst x) \<and> currentBenchID (snd x) = old)"
    unfolding waitForNextPhase_None quiet_def by (rule refl)
qed

theorem waitForNextPhase_outcome_witness:
  "waitForNextPhase 1 (idleWorker, sharedAt 1)
      [(idleWorker, sharedAt 1), (idleWorker, sharedAt 2)] = Some (Inr ())
   \<and> waitForNextPhase 1 (idleWorker, sharedAt 1)
      [(idleWorker, sharedAt 1), (idleWorker\<lparr>isInterruptionRequested := True\<rparr>, sharedAt 1)]
      = interrupted
   \<and> waitForNextPhase 1 (idleWorker, sharedAt 1) [(idleWorker, sharedAt 1)] = None"
proof (intro conjI)
  let ?v = "(idleWorker, sharedAt 1)"
  have "\<exists>before u after. ?v # [?v, (idleWorker, sharedAt 2)] = before @ u # after
         \<and> (\<forall>x\<in>set before. \<not> isInterruptionRequested (fst x) \<and> currentBenchID (snd x) = 1)
         \<and> \<not> isInterruptionRequested (fst u) \<and> currentBenchID (snd u) \<noteq> 1"
    by (rule exI [of _ "[?v, ?v]"], rule exI [of _ "(idleWorker, sharedAt 2)"],
        rule exI [of _ "[]"]) (simp add: idleWorker_def sharedAt_def)
  with waitForNextPhase_outcome [of 1 ?v "[?v, (idleWorker, sharedAt 2)]"]
  show "waitForNextPhase 1 ?v [?v, (idleWorker, sharedAt 2)] = Some (Inr ())"
    by blast
  let ?i = "(idleWorker\<lparr>isInterruptionRequested := True\<rparr>, sharedAt 1)"
  have "\<exists>before u after. ?v # [?v, ?i] = before @ u # after
         \<and> (\<forall>x\<in>set before. \<not> isInterruptionRequested (fst x) \<and> currentBenchID (snd x) = 1)
         \<and> isInterruptionRequested (fst u)"
    by (rule exI [of _ "[?v, ?v]"], rule exI [of _ ?i], rule exI [of _ "[]"])
       (simp add: idleWorker_def sharedAt_def)
  with waitForNextPhase_outcome [of 1 ?v "[?v, ?i]"]
  show "waitForNextPhase 1 ?v [?v, ?i] = interrupted"
    by blast
  have "\<forall>x\<in>set (?v # [?v]). \<not> isInterruptionRequested (fst x) \<and> currentBenchID (snd x) = 1"
    by (simp add: idleWorker_def sharedAt_def)
  with waitForNextPhase_outcome [of 1 ?v "[?v]"]
  show "waitForNextPhase 1 ?v [?v] = None"
    by blast
qed

text \<open>
  Claim C9. The interruption check comes before the comparison of the identifiers:
  when the flag is set at entry, \<open>waitForNextPhase\<close> throws the interruption exception
  whatever the shared identifier is, even one that already differs from \<open>oldBenchID\<close>.
\<close>

theorem waitForNextPhase_interruption_first:
  "isInterruptionRequested (fst v) \<Longrightarrow> waitForNextPhase oldBenchID v wakeups = interrupted"
  by (simp add: waitForNextPhase_def checkInterruptionRequest_def interrupted_def)

theorem waitForNextPhase_interruption_first_witness:
  "currentBenchID (sharedAt 2) \<noteq> 1
   \<and> waitForNextPhase 1 (idleWorker\<lparr>isInterruptionRequested := True\<rparr>, sharedAt 2) [] = interrupted
   \<and> waitForNextPhase 1 (idleWorker, sharedAt 2) [] = Some (Inr ())"
proof -
  have "isInterruptionRequested (fst (idleWorker\<lparr>isInterruptionRequested := True\<rparr>, sharedAt 2))"
    by simp
  from waitForNextPhase_interruption_first [OF this, of 1 "[]"]
  show ?thesis
    by (simp add: sharedAt_def idleWorker_def waitForNextPhase_def checkInterruptionRequest_def)
qed


section \<open>Properties of the completion counters and the stonewall capture\<close>

lemma inc_nonzero:
  "unat (c :: size_t) + 1 < 2 ^ 64 \<Longrightarrow> c + 1 \<noteq> 0 \<and> unat (c + 1) = unat c + 1"
proof -
  assume a: "unat c + 1 < 2 ^ 64"
  have "unat (c + 1) = (unat c + 1) mod 2 ^ 64"
    by (simp add: unat_word_ariths)
  with a have u: "unat (c + 1) = unat c + 1" by simp
  then have "c + 1 \<noteq> 0" by (metis Suc_eq_plus1 nat.distinct(1) unat_0)
  with u show ?thesis by simp
qed

lemma shared_incNumWorkersDone:
  "shared (incNumWorkersDone me p) = incNumWorkersDoneUnlocked (shared p)"
  by (simp add: incNumWorkersDone_def Let_def)

lemma numWorkersDone_incNumWorkersDone:
  "numWorkersDone (shared (incNumWorkersDone me p)) = numWorkersDone (shared p) + 1"
  by (simp add: shared_incNumWorkersDone incNumWorkersDoneUnlocked_def)

lemma workerVec_incNumWorkersDone:
  "workerVec (incNumWorkersDone me p) =
     (if numWorkersDone (shared p) = 0 \<and> \<not> stoneWallTriggered (workerVec p ! me)
      then map createStoneWallStats (workerVec p) else workerVec p)"
  by (simp add: incNumWorkersDone_def Let_def incNumWorkersDoneUnlocked_def)

lemma workerVec_incNumWorkersDoneWithError:
  "workerVec (incNumWorkersDoneWithError me p) = workerVec p"
  by (simp add: incNumWorkersDoneWithError_def)

lemma numWorkersDone_incNumWorkersDoneWithError:
  "numWorkersDone (shared (incNumWorkersDoneWithError me p)) = numWorkersDone (shared p)"
  by (simp add: incNumWorkersDoneWithError_def WorkersSharedData_incNumWorkersDoneWithError_def)

lemma completions_Nil: "completions [] p = p"
  by (simp add: completions_def)

lemma completions_Cons: "completions (e # evs) p = completions evs (complete e p)"
  by (simp add: completions_def)

text \<open>Once the counter is past zero, no later call of the phase captures.\<close>

lemma completions_after_first:
  "numWorkersDone (shared p) \<noteq> 0 \<Longrightarrow> unat (numWorkersDone (shared p)) + length evs < 2 ^ 64
   \<Longrightarrow> workerVec (completions evs p) = workerVec p"
proof (induction evs arbitrary: p)
  case Nil
  show ?case by (simp add: completions_Nil)
next
  case (Cons e evs)
  show ?case
  proof (cases e)
    case (CallDone me)
    let ?p = "incNumWorkersDone me p"
    from Cons.prems(2) have "unat (numWorkersDone (shared p)) + 1 < 2 ^ 64" by simp
    from inc_nonzero [OF this]
    have nz: "numWorkersDone (shared ?p) \<noteq> 0"
      and u: "unat (numWorkersDone (shared ?p)) = unat (numWorkersDone (shared p)) + 1"
      by (simp_all add: numWorkersDone_incNumWorkersDone)
    from u Cons.prems(2) have "unat (numWorkersDone (shared ?p)) + length evs < 2 ^ 64"
      by simp
    from Cons.IH [OF nz this] have "workerVec (completions evs ?p) = workerVec ?p" .
    also have "\<dots> = workerVec p"
      using Cons.prems(1) by (simp add: workerVec_incNumWorkersDone)
    finally show ?thesis by (simp add: CallDone completions_Cons)
  next
    case (CallDoneWithError me)
    let ?p = "incNumWorkersDoneWithError me p"
    have "workerVec (completions evs ?p) = workerVec ?p"
      using Cons.prems
      by (intro Cons.IH) (simp_all add: numWorkersDone_incNumWorkersDoneWithError)
    then show ?thesis
      by (simp add: CallDoneWithError completions_Cons workerVec_incNumWorkersDoneWithError)
  qed
qed

text \<open>
  The workers after the completion calls of one phase: unchanged when no worker
  called \<open>incNumWorkersDone\<close>, and else decided at the first such call alone.
\<close>

lemma workerVec_completions:
  assumes start: "numWorkersDone (shared p) = 0"
    and len: "length evs < 2 ^ 64"
  shows "workerVec (completions evs p) =
     (case firstDone evs of
        None \<Rightarrow> workerVec p
      | Some me \<Rightarrow>
          if stoneWallTriggered (workerVec p ! me) then workerVec p
          else map createStoneWallStats (workerVec p))"
  using start len
proof (induction evs arbitrary: p)
  case Nil
  show ?case by (simp add: completions_Nil)
next
  case (Cons e evs)
  show ?case
  proof (cases e)
    case (CallDone me)
    let ?p = "incNumWorkersDone me p"
    have one: "numWorkersDone (shared ?p) = 1"
      using Cons.prems(1) by (simp add: numWorkersDone_incNumWorkersDone)
    then have nz: "numWorkersDone (shared ?p) \<noteq> 0" by simp
    have "unat (numWorkersDone (shared ?p)) + length evs < 2 ^ 64"
      using one Cons.prems(2) by simp
    from completions_after_first [OF nz this]
    have "workerVec (completions evs ?p) = workerVec ?p" .
    then show ?thesis
      using Cons.prems(1) by (simp add: CallDone completions_Cons workerVec_incNumWorkersDone)
  next
    case (CallDoneWithError me)
    let ?p = "incNumWorkersDoneWithError me p"
    have "numWorkersDone (shared ?p) = 0"
      using Cons.prems(1) by (simp add: numWorkersDone_incNumWorkersDoneWithError)
    moreover have "length evs < 2 ^ 64" using Cons.prems(2) by simp
    ultimately have "workerVec (completions evs ?p) =
       (case firstDone evs of
          None \<Rightarrow> workerVec ?p
        | Some me \<Rightarrow>
            if stoneWallTriggered (workerVec ?p ! me) then workerVec ?p
            else map createStoneWallStats (workerVec ?p))"
      by (rule Cons.IH)
    then show ?thesis
      unfolding workerVec_incNumWorkersDoneWithError
      by (simp add: CallDoneWithError completions_Cons)
  qed
qed

lemma upt_0_2: "[0..<2] = [0, Suc 0]"
  by (simp add: numeral_2_eq_2)

lemmas fixture_defs = idleWorker_def workerOfRank_def sharedAt_def freshPool_def upt_0_2

lemmas step_defs = completions_def incNumWorkersDone_def incNumWorkersDoneWithError_def
  incNumWorkersDoneUnlocked_def WorkersSharedData_incNumWorkersDoneWithError_def
  createStoneWallStats_def Let_def

lemma numWorkersDone_calls:
  "numWorkersDone (shared (completions (map CallDone ms) p)) =
     numWorkersDone (shared p) + word_of_nat (length ms)"
proof (induction ms arbitrary: p)
  case Nil
  show ?case by (simp add: completions_Nil)
next
  case (Cons m ms)
  show ?case
    by (simp add: completions_Cons Cons.IH numWorkersDone_incNumWorkersDone)
qed

lemma length_workerVec_calls:
  "length (workerVec (completions (map CallDone ms) p)) = length (workerVec p)"
proof (induction ms arbitrary: p)
  case Nil
  show ?case by (simp add: completions_Nil)
next
  case (Cons m ms)
  show ?case
    by (simp add: completions_Cons Cons.IH workerVec_incNumWorkersDone)
qed

lemma size_t_of_nat_eq:
  "a < 2 ^ 64 \<Longrightarrow> b < 2 ^ 64 \<Longrightarrow> (word_of_nat a :: size_t) = word_of_nat b \<longleftrightarrow> a = b"
proof
  assume a: "a < 2 ^ 64" and b: "b < 2 ^ 64" and e: "(word_of_nat a :: size_t) = word_of_nat b"
  from e have "unat (word_of_nat a :: size_t) = unat (word_of_nat b :: size_t)" by simp
  then have "a mod 2 ^ 64 = b mod 2 ^ 64" by (simp add: unat_of_nat)
  with a b show "a = b" by simp
qed simp

lemma callsBy_Cons:
  "callsBy i (e # evs) = (if caller e = i then 1 else 0) + callsBy i evs"
  by (simp add: callsBy_def)

lemma sum_callsBy:
  "\<forall>e\<in>set evs. caller e < n \<Longrightarrow> (\<Sum>i<n. callsBy i evs) = length evs"
proof (induction evs)
  case Nil
  show ?case by (simp add: callsBy_def)
next
  case (Cons e evs)
  then have c: "caller e < n" and rest: "\<forall>e\<in>set evs. caller e < n" by simp_all
  have "(\<Sum>i<n. callsBy i (e # evs)) =
      (\<Sum>i<n. if caller e = i then 1 else 0) + (\<Sum>i<n. callsBy i evs)"
    by (simp add: callsBy_Cons sum.distrib)
  also have "(\<Sum>i<n. if caller e = i then 1 else 0) = (1 :: nat)"
    using c by simp
  also have "(\<Sum>i<n. callsBy i evs) = length evs"
    by (rule Cons.IH [OF rest])
  finally show ?case by simp
qed

lemma everyWorkerCalledOnce_length:
  assumes once: "everyWorkerCalledOnce evs p"
    and valid: "\<forall>e\<in>set evs. caller e < length (workerVec p)"
  shows "length evs = length (workerVec p)"
proof -
  from once have "\<forall>i<length (workerVec p). callsBy i evs = 1"
    by (simp add: everyWorkerCalledOnce_def list_all_iff)
  then have "(\<Sum>i<length (workerVec p). callsBy i evs) = length (workerVec p)"
    by simp
  with sum_callsBy [OF valid] show ?thesis by simp
qed

text \<open>
  Claim C1. A call of \<open>incNumWorkersDone\<close> takes snapshots only when it brings
  \<open>numWorkersDone\<close> to exactly 1 and the caller's latch is not set. Over the calls of
  one phase (the counter starts at 0; fewer than \<open>2^64\<close> calls), in any order and by
  any callers, the workers end either untouched or with \<open>createStoneWallStats\<close> applied
  once, at the first \<open>incNumWorkersDone\<close> call and at no other; so no worker is
  captured more than once per phase.
\<close>

theorem stoneWall_capture_once_per_phase:
  assumes start: "numWorkersDone (shared p) = 0"
    and len: "length evs < 2 ^ 64"
  shows "(capturedWorkers q (incNumWorkersDone me q) \<noteq> []
            \<longrightarrow> numWorkersDone (shared (incNumWorkersDone me q)) = 1
              \<and> \<not> stoneWallTriggered (workerVec q ! me))
    \<and> workerVec (completions evs p) =
        (case firstDone evs of
           None \<Rightarrow> workerVec p
         | Some first \<Rightarrow>
             if stoneWallTriggered (workerVec p ! first) then workerVec p
             else map createStoneWallStats (workerVec p))
    \<and> (\<forall>i<length (workerVec p).
          stoneWallCaptures (workerVec (completions evs p) ! i)
            \<le> Suc (stoneWallCaptures (workerVec p ! i)))"
proof (intro conjI)
  show "capturedWorkers q (incNumWorkersDone me q) \<noteq> []
      \<longrightarrow> numWorkersDone (shared (incNumWorkersDone me q)) = 1
        \<and> \<not> stoneWallTriggered (workerVec q ! me)"
    by (simp add: capturedWorkers_def workerVec_incNumWorkersDone
        numWorkersDone_incNumWorkersDone)
  show run: "workerVec (completions evs p) =
      (case firstDone evs of
         None \<Rightarrow> workerVec p
       | Some first \<Rightarrow>
           if stoneWallTriggered (workerVec p ! first) then workerVec p
           else map createStoneWallStats (workerVec p))"
    by (rule workerVec_completions [OF start len])
  show "\<forall>i<length (workerVec p).
      stoneWallCaptures (workerVec (completions evs p) ! i)
        \<le> Suc (stoneWallCaptures (workerVec p ! i))"
  proof (intro allI impI)
    fix i
    assume i: "i < length (workerVec p)"
    have "workerVec (completions evs p) = workerVec p
        \<or> workerVec (completions evs p) = map createStoneWallStats (workerVec p)"
      unfolding run by (simp split: option.split)
    then show "stoneWallCaptures (workerVec (completions evs p) ! i)
        \<le> Suc (stoneWallCaptures (workerVec p ! i))"
      using i by (auto simp: createStoneWallStats_def)
  qed
qed

theorem stoneWall_capture_once_per_phase_witness:
  "numWorkersDone (shared (freshPool 2)) = 0
   \<and> length [CallDoneWithError 1, CallDone 0, CallDone 1] < (2 :: nat) ^ 64
   \<and> map stoneWallCaptures
        (workerVec (completions [CallDoneWithError 1, CallDone 0, CallDone 1] (freshPool 2)))
      = [1, 1]"
proof -
  have s: "numWorkersDone (shared (freshPool 2)) = 0" by (simp add: fixture_defs)
  have l: "length [CallDoneWithError 1, CallDone 0, CallDone 1] < (2 :: nat) ^ 64" by simp
  from stoneWall_capture_once_per_phase [OF s l] s l
  show ?thesis by (simp add: fixture_defs createStoneWallStats_def)
qed

text \<open>
  Claim C3, as amended. \<open>incNumWorkersDone\<close> has no guard per worker: every call adds
  one to \<open>numWorkersDone\<close>, whoever makes it, so a second call by the same worker is
  counted again. For a phase in which the workers report through \<open>incNumWorkersDone\<close>
  (the counter starts at 0; fewer than \<open>2^64\<close> calls and workers), the counter is the
  number of calls, and \<open>checkWorkersDone\<close> reports that all workers are done exactly
  when the number of calls equals the number of workers. So it reports done when
  every worker has called exactly once.
\<close>

theorem checkWorkersDone_counts_calls:
  assumes start: "numWorkersDone (shared p) = 0"
    and len: "length ms < 2 ^ 64"
    and workers: "length (workerVec p) < 2 ^ 64"
  shows "numWorkersDone (shared (completions (map CallDone ms) p)) = word_of_nat (length ms)
    \<and> (fst (checkWorkersDone (completions (map CallDone ms) p)) \<longleftrightarrow>
          length ms = length (workerVec p))
    \<and> snd (checkWorkersDone (completions (map CallDone ms) p)) = word_of_nat (length ms)
    \<and> (everyWorkerCalledOnce (map CallDone ms) p
          \<and> (\<forall>m\<in>set ms. m < length (workerVec p))
        \<longrightarrow> fst (checkWorkersDone (completions (map CallDone ms) p)))"
proof -
  have cnt: "numWorkersDone (shared (completions (map CallDone ms) p)) =
      word_of_nat (length ms)"
    using start by (simp add: numWorkersDone_calls)
  have "fst (checkWorkersDone (completions (map CallDone ms) p)) \<longleftrightarrow>
      (word_of_nat (length ms) :: size_t) = word_of_nat (length (workerVec p))"
    by (simp add: checkWorkersDone_def cnt length_workerVec_calls)
  also have "\<dots> \<longleftrightarrow> length ms = length (workerVec p)"
    by (rule size_t_of_nat_eq [OF len workers])
  finally have reported: "fst (checkWorkersDone (completions (map CallDone ms) p)) \<longleftrightarrow>
      length ms = length (workerVec p)" .
  have once: "fst (checkWorkersDone (completions (map CallDone ms) p))"
    if h: "everyWorkerCalledOnce (map CallDone ms) p
      \<and> (\<forall>m\<in>set ms. m < length (workerVec p))"
  proof -
    from h have "length (map CallDone ms) = length (workerVec p)"
      by (intro everyWorkerCalledOnce_length) simp_all
    then show ?thesis by (simp add: reported)
  qed
  have count: "snd (checkWorkersDone (completions (map CallDone ms) p)) =
      word_of_nat (length ms)"
    by (simp add: checkWorkersDone_def cnt)
  from cnt reported count once show ?thesis by blast
qed

theorem checkWorkersDone_counts_calls_witness:
  "everyWorkerCalledOnce (map CallDone [1, 0]) (freshPool 2)
   \<and> fst (checkWorkersDone (completions (map CallDone [1, 0]) (freshPool 2)))
   \<and> \<not> fst (checkWorkersDone (completions (map CallDone [1]) (freshPool 2)))"
proof -
  have s: "numWorkersDone (shared (freshPool 2)) = 0" by (simp add: fixture_defs)
  have w: "length (workerVec (freshPool 2)) < 2 ^ 64" by (simp add: fixture_defs)
  have n: "length (workerVec (freshPool 2)) = 2" by (simp add: fixture_defs)
  have l1: "length [1, 0 :: nat] < 2 ^ 64" by simp
  have l2: "length [1 :: nat] < 2 ^ 64" by simp
  have e: "everyWorkerCalledOnce (map CallDone [1, 0]) (freshPool 2)"
    by (simp add: everyWorkerCalledOnce_def callsBy_def fixture_defs)
  from checkWorkersDone_counts_calls [OF s l1 w] checkWorkersDone_counts_calls [OF s l2 w] n e
  show ?thesis by simp
qed

theorem checkWorkersDone_idempotence_counterexample:
  "numWorkersDone (shared (completions [CallDone 0, CallDone 0] (freshPool 2))) = 2
   \<and> fst (checkWorkersDone (completions [CallDone 0, CallDone 0] (freshPool 2)))
   \<and> callsBy 0 [CallDone 0, CallDone 0] = 2
   \<and> callsBy 1 [CallDone 0, CallDone 0] = 0
   \<and> \<not> everyWorkerCalledOnce [CallDone 0, CallDone 0] (freshPool 2)"
  by (simp add: checkWorkersDone_def step_defs fixture_defs everyWorkerCalledOnce_def callsBy_def)




text \<open>
  Claim C7. \<open>incNumWorkersDoneWithError\<close> adds one to the error counter and leaves the
  workers (their latches and snapshots), the completion counter and the phase
  identifier as they were, in every state: it takes no snapshot even when it is the
  first completion of the phase.
\<close>

theorem incNumWorkersDoneWithError_frame:
  "workerVec (incNumWorkersDoneWithError me p) = workerVec p
   \<and> capturedWorkers p (incNumWorkersDoneWithError me p) = []
   \<and> numWorkersDone (shared (incNumWorkersDoneWithError me p)) = numWorkersDone (shared p)
   \<and> currentBenchID (shared (incNumWorkersDoneWithError me p)) = currentBenchID (shared p)
   \<and> numWorkersDoneWithError (shared (incNumWorkersDoneWithError me p)) =
       numWorkersDoneWithError (shared p) + 1"
  by (simp add: incNumWorkersDoneWithError_def WorkersSharedData_incNumWorkersDoneWithError_def
      capturedWorkers_def)

theorem incNumWorkersDoneWithError_frame_witness:
  "numWorkersDone (shared (freshPool 2)) = 0
   \<and> map stoneWallCaptures (workerVec (incNumWorkersDoneWithError 0 (freshPool 2))) = [0, 0]
   \<and> map stoneWallTriggered (workerVec (incNumWorkersDoneWithError 0 (freshPool 2)))
       = [False, False]
   \<and> numWorkersDoneWithError (shared (incNumWorkersDoneWithError 0 (freshPool 2))) = 1
   \<and> map stoneWallCaptures (workerVec (incNumWorkersDone 0 (freshPool 2))) = [1, 1]"
  using incNumWorkersDoneWithError_frame [of 0 "freshPool 2"]
  by (simp add: fixture_defs step_defs)


section \<open>Properties of the NUMA binding\<close>

lemma size_t_mod_length:
  assumes "n < 2 ^ 64"
  shows "unat ((r :: size_t) mod word_of_nat n) = unat r mod n"
proof -
  have "unat (word_of_nat n :: size_t) = n"
    using assms by (simp add: unat_of_nat)
  then show ?thesis by (simp add: unat_mod)
qed

lemma show_nat_digit: "n < 10 \<Longrightarrow> show_nat n = [digit_char n]"
  by (simp add: show_nat.simps)

text \<open>
  Claim C6. \<open>applyNumaBinding\<close> returns without binding when the zone list is empty or
  NUMA information is not available. Otherwise (the list has fewer than \<open>2^64\<close>
  entries) it picks the entry at index \<open>workerRank mod\<close> the length of the list, which
  lies in the list, and asks for the binding to that zone, written in decimal; when
  the binding throws, the call throws a \<open>WorkerException\<close> with the same text.
\<close>

theorem applyNumaBinding_zone:
  "(numaZonesVec = [] \<or> \<not> isNumaInfoAvailable
      \<longrightarrow> applyNumaBinding isNumaInfoAvailable bindToNumaZone numaZonesVec w = Inr None)
   \<and> (numaZonesVec \<noteq> [] \<and> isNumaInfoAvailable \<and> length numaZonesVec < 2 ^ 64
      \<longrightarrow> unat (workerRank w) mod length numaZonesVec < length numaZonesVec
        \<and> applyNumaBinding isNumaInfoAvailable bindToNumaZone numaZonesVec w =
            (let zone = to_string
                   (sint (numaZonesVec ! (unat (workerRank w) mod length numaZonesVec))) in
             case bindToNumaZone zone of
               Some what \<Rightarrow> Inl (WorkerException what)
             | None \<Rightarrow> Inr (Some zone)))"
proof (intro conjI impI)
  assume "numaZonesVec = [] \<or> \<not> isNumaInfoAvailable"
  then show "applyNumaBinding isNumaInfoAvailable bindToNumaZone numaZonesVec w = Inr None"
    by (auto simp: applyNumaBinding_def)
next
  assume a: "numaZonesVec \<noteq> [] \<and> isNumaInfoAvailable \<and> length numaZonesVec < 2 ^ 64"
  then show "unat (workerRank w) mod length numaZonesVec < length numaZonesVec" by simp
  from a have idx: "unat (workerRank w mod word_of_nat (length numaZonesVec))
      = unat (workerRank w) mod length numaZonesVec"
    by (simp add: size_t_mod_length)
  from a show "applyNumaBinding isNumaInfoAvailable bindToNumaZone numaZonesVec w =
      (let zone = to_string
             (sint (numaZonesVec ! (unat (workerRank w) mod length numaZonesVec))) in
       case bindToNumaZone zone of
         Some what \<Rightarrow> Inl (WorkerException what)
       | None \<Rightarrow> Inr (Some zone))"
    by (simp add: applyNumaBinding_def Let_def idx)
qed

theorem applyNumaBinding_zone_witness:
  "applyNumaBinding True (\<lambda>z. if z = ''7'' then Some ''no such zone'' else None)
      [0, 1, 7] (workerOfRank 5)
     = Inl (WorkerException ''no such zone'')
   \<and> applyNumaBinding True (\<lambda>z. if z = ''7'' then Some ''no such zone'' else None)
      [0, 1, 7] (workerOfRank 4)
     = Inr (Some ''1'')
   \<and> applyNumaBinding False (\<lambda>z. Some ''unused'') [0, 1, 7] (workerOfRank 4) = Inr None
   \<and> applyNumaBinding True (\<lambda>z. Some ''unused'') [] (workerOfRank 4) = Inr None"
proof -
  let ?bind = "\<lambda>z. if z = ''7'' then Some ''no such zone'' else None"
  let ?fail = "\<lambda>z :: string. Some ''unused''"
  have z: "[0, 1, 7 :: cint] \<noteq> [] \<and> True \<and> length [0, 1, 7 :: cint] < 2 ^ 64" by simp
  have r5: "workerRank (workerOfRank 5) = 5" and r4: "workerRank (workerOfRank 4) = 4"
    by (simp_all add: workerOfRank_def)
  have s7: "to_string 7 = ''7''"
    by (simp add: to_string_def show_nat_digit digit_char_def)
  have s1: "to_string 1 = ''1''"
    by (simp add: to_string_def show_nat_digit digit_char_def)
  from applyNumaBinding_zone [of "[0, 1, 7]" True ?bind "workerOfRank 5"] z
  have a: "applyNumaBinding True ?bind [0, 1, 7] (workerOfRank 5)
      = Inl (WorkerException ''no such zone'')"
    by (simp add: r5 s7)
  from applyNumaBinding_zone [of "[0, 1, 7]" True ?bind "workerOfRank 4"] z
  have b: "applyNumaBinding True ?bind [0, 1, 7] (workerOfRank 4) = Inr (Some ''1'')"
    by (simp add: r4 s1)
  from applyNumaBinding_zone [of "[0, 1, 7]" False ?fail "workerOfRank 4"]
  have c: "applyNumaBinding False ?fail [0, 1, 7] (workerOfRank 4) = Inr None"
    by simp
  from applyNumaBinding_zone [of "[]" True ?fail "workerOfRank 4"]
  have d: "applyNumaBinding True ?fail [] (workerOfRank 4) = Inr None"
    by simp
  from a b c d show ?thesis by simp
qed

lemma to_string_examples:
  "to_string 0 = ''0'' \<and> to_string 42 = ''42'' \<and> to_string (- 1) = ''-1''
   \<and> to_string (sint (- 12 :: cint)) = ''-12''"
  by (simp add: to_string_def show_nat.simps [of 42] show_nat.simps [of 12]
      show_nat_digit digit_char_def)


section \<open>Properties of the block device test script\<close>








end
